theory Spec2Isabelle
  imports Complex_Main "HOL-Library.AList" "HOL-Library.Multiset"
begin

section \<open>Numbers\<close>

text \<open>
  The engine computes with JavaScript numbers. Finite numbers are modelled as reals
  (rounding and overflow of IEEE doubles are not modelled, and zero carries no sign);
  the non-finite values that division by zero and \<open>Math.max()\<close> of an empty list
  produce are explicit constructors, with the IEEE rules written out for every
  operation the engine applies to them.
\<close>

datatype jsnum = NaN | NegInf | Fin real | PosInf

definition inf_of_sign :: "real \<Rightarrow> jsnum" where
  "inf_of_sign s = (if s > 0 then PosInf else if s < 0 then NegInf else NaN)"

fun js_neg :: "jsnum \<Rightarrow> jsnum" where
  "js_neg (Fin a) = Fin (- a)"
| "js_neg PosInf = NegInf"
| "js_neg NegInf = PosInf"
| "js_neg NaN = NaN"

fun js_add :: "jsnum \<Rightarrow> jsnum \<Rightarrow> jsnum" where
  "js_add (Fin a) (Fin b) = Fin (a + b)"
| "js_add NaN _ = NaN"
| "js_add _ NaN = NaN"
| "js_add PosInf NegInf = NaN"
| "js_add NegInf PosInf = NaN"
| "js_add PosInf _ = PosInf"
| "js_add _ PosInf = PosInf"
| "js_add NegInf _ = NegInf"
| "js_add _ NegInf = NegInf"

definition js_sub :: "jsnum \<Rightarrow> jsnum \<Rightarrow> jsnum" where
  "js_sub a b = js_add a (js_neg b)"

fun js_mul :: "jsnum \<Rightarrow> jsnum \<Rightarrow> jsnum" where
  "js_mul (Fin a) (Fin b) = Fin (a * b)"
| "js_mul NaN _ = NaN"
| "js_mul _ NaN = NaN"
| "js_mul PosInf (Fin b) = inf_of_sign b"
| "js_mul NegInf (Fin b) = inf_of_sign (- b)"
| "js_mul (Fin a) PosInf = inf_of_sign a"
| "js_mul (Fin a) NegInf = inf_of_sign (- a)"
| "js_mul PosInf PosInf = PosInf"
| "js_mul NegInf NegInf = PosInf"
| "js_mul _ _ = NegInf"

fun js_div :: "jsnum \<Rightarrow> jsnum \<Rightarrow> jsnum" where
  "js_div (Fin a) (Fin b) = (if b = 0 then inf_of_sign a else Fin (a / b))"
| "js_div NaN _ = NaN"
| "js_div _ NaN = NaN"
| "js_div (Fin a) _ = Fin 0"
| "js_div PosInf (Fin b) = (if b \<ge> 0 then PosInf else NegInf)"
| "js_div NegInf (Fin b) = (if b \<ge> 0 then NegInf else PosInf)"
| "js_div _ _ = NaN"

fun js_lt :: "jsnum \<Rightarrow> jsnum \<Rightarrow> bool" where
  "js_lt (Fin a) (Fin b) = (a < b)"
| "js_lt NaN _ = False"
| "js_lt _ NaN = False"
| "js_lt NegInf (Fin b) = True"
| "js_lt NegInf PosInf = True"
| "js_lt (Fin a) PosInf = True"
| "js_lt _ _ = False"

definition js_gt :: "jsnum \<Rightarrow> jsnum \<Rightarrow> bool" where
  "js_gt a b = js_lt b a"

fun js_min :: "jsnum \<Rightarrow> jsnum \<Rightarrow> jsnum" where
  "js_min NaN _ = NaN"
| "js_min _ NaN = NaN"
| "js_min a b = (if js_lt b a then b else a)"

fun js_max :: "jsnum \<Rightarrow> jsnum \<Rightarrow> jsnum" where
  "js_max NaN _ = NaN"
| "js_max _ NaN = NaN"
| "js_max a b = (if js_lt a b then b else a)"

fun js_floor :: "jsnum \<Rightarrow> jsnum" where
  "js_floor (Fin a) = Fin (of_int \<lfloor>a\<rfloor>)"
| "js_floor v = v"

fun js_round :: "jsnum \<Rightarrow> jsnum" where
  "js_round (Fin a) = Fin (of_int \<lfloor>a + 1 / 2\<rfloor>)"
| "js_round v = v"

fun js_abs :: "jsnum \<Rightarrow> jsnum" where
  "js_abs (Fin a) = Fin \<bar>a\<bar>"
| "js_abs NegInf = PosInf"
| "js_abs v = v"

definition js_or :: "jsnum \<Rightarrow> jsnum \<Rightarrow> jsnum" where
  \<comment> \<open>\<open>a || b\<close> on numbers: \<open>0\<close> and \<open>NaN\<close> are falsy\<close>
  "js_or a b = (case a of NaN \<Rightarrow> b | Fin x \<Rightarrow> (if x = 0 then b else a) | _ \<Rightarrow> a)"

definition js_list_max :: "real list \<Rightarrow> jsnum" where
  \<comment> \<open>\<open>Math.max(...xs)\<close>, which is \<open>-Infinity\<close> for no arguments\<close>
  "js_list_max xs = foldr (\<lambda>x m. js_max (Fin x) m) xs NegInf"

definition js_pow :: "jsnum \<Rightarrow> real \<Rightarrow> jsnum" where
  \<comment> \<open>\<open>Math.pow(b, e)\<close> for a finite exponent\<close>
  "js_pow b e =
     (if e = 0 then Fin 1
      else case b of
        NaN \<Rightarrow> NaN
      | Fin x \<Rightarrow>
          (if x > 0 then Fin (x powr e)
           else if x = 0 then (if e > 0 then Fin 0 else PosInf)
           else if e = of_int \<lfloor>e\<rfloor> then Fin (x powi \<lfloor>e\<rfloor>) else NaN)
      | PosInf \<Rightarrow> (if e > 0 then PosInf else Fin 0)
      | NegInf \<Rightarrow>
          (if e > 0 then (if e = of_int \<lfloor>e\<rfloor> \<and> odd \<lfloor>e\<rfloor> then NegInf else PosInf)
           else Fin 0))"

section \<open>Count maps\<close>

text \<open>
  A count map \<open>Record<number, number>\<close> is an association list with distinct keys.
  The engine reads it only through the number of keys and through entry lists that it
  sorts by key first, so the enumeration order of the object is immaterial; entries
  are kept in insertion order. A count is an integer, or \<open>NaN\<close> once
  \<open>counts[size] -= n\<close> has been applied to a missing key.
\<close>

datatype count = Count int | CountNaN

type_synonym counts = "(real \<times> count) list"

definition counts_add :: "counts \<Rightarrow> real \<Rightarrow> nat \<Rightarrow> counts" where
  \<comment> \<open>\<open>counts[size] = (counts[size] || 0) + n\<close>: a missing key, \<open>NaN\<close> and \<open>0\<close> are falsy\<close>
  "counts_add c sz n =
     AList.update sz (Count ((case map_of c sz of Some (Count v) \<Rightarrow> v | _ \<Rightarrow> 0) + int n)) c"

definition counts_sub :: "counts \<Rightarrow> real \<Rightarrow> nat \<Rightarrow> counts" where
  \<comment> \<open>\<open>counts[size] -= n\<close>: \<open>undefined - n\<close> is \<open>NaN\<close>\<close>
  "counts_sub c sz n =
     AList.update sz (case map_of c sz of Some (Count v) \<Rightarrow> Count (v - int n) | _ \<Rightarrow> CountNaN) c"

definition counts_prune :: "counts \<Rightarrow> real \<Rightarrow> counts" where
  \<comment> \<open>\<open>if (counts[size] === 0) delete counts[size]\<close>\<close>
  "counts_prune c sz = (if map_of c sz = Some (Count 0) then AList.delete sz c else c)"

section \<open>Sorting\<close>

text \<open>
  \<open>Array.prototype.sort\<close> with a comparator: a stable sort that places \<open>x\<close> after
  \<open>y\<close> exactly when the comparator's value is positive (a \<open>NaN\<close> value counts as
  zero). The standard fixes the result only for comparators that order the elements
  consistently; the model is the stable insertion sort, with which every stable sort
  agrees on such comparators. Where a comparator is not transitive on the elements, the
  order computed here need not be the order an engine returns.
\<close>

fun js_insert :: "('a \<Rightarrow> 'a \<Rightarrow> jsnum) \<Rightarrow> 'a \<Rightarrow> 'a list \<Rightarrow> 'a list" where
  "js_insert cmp x [] = [x]"
| "js_insert cmp x (y # ys) =
     (if js_gt (cmp x y) (Fin 0) then y # js_insert cmp x ys else x # y # ys)"

definition js_sort :: "('a \<Rightarrow> 'a \<Rightarrow> jsnum) \<Rightarrow> 'a list \<Rightarrow> 'a list" where
  "js_sort cmp xs = foldr (js_insert cmp) xs []"

section \<open>Layout solver\<close>

record AxisSolution =
  counts :: counts
  total :: real
  coverage :: jsnum
  numPanels :: nat

definition loop_counts :: "jsnum \<Rightarrow> nat list" where
  \<comment> \<open>the values of \<open>n\<close> in \<open>for (n = 0; n <= Math.min(maxN, 30); n++)\<close>\<close>
  "loop_counts maxN =
     (case js_min maxN (Fin 30) of
        Fin k \<Rightarrow> (if k < 0 then [] else [0 ..< nat \<lfloor>k\<rfloor> + 1])
      | _ \<Rightarrow> [])"

fun recurse :: "real \<Rightarrow> real \<Rightarrow> real list \<Rightarrow> real \<Rightarrow> nat \<Rightarrow> counts \<Rightarrow> AxisSolution list \<times> counts"
  and recurse_loop ::
    "real \<Rightarrow> real \<Rightarrow> real \<Rightarrow> real list \<Rightarrow> real \<Rightarrow> nat \<Rightarrow> nat list \<Rightarrow> counts \<Rightarrow> AxisSolution list \<times> counts"
where
  "recurse wallDim gap rest totalDim numP cs =
     (let totalWithGaps = totalDim + real_of_int (max 0 (int numP - 1)) * gap in
      if totalWithGaps > wallDim + gap + 0.01 then ([], cs)
      else
        let pushed =
          (if numP > 0
           then [\<lparr>counts = cs, total = totalWithGaps,
                  coverage = js_div (Fin totalWithGaps) (Fin wallDim), numPanels = numP\<rparr>]
           else [])
        in (case rest of
              [] \<Rightarrow> (pushed, cs)
            | sz # rest' \<Rightarrow>
                (let maxN = js_floor (js_div (Fin (wallDim - totalWithGaps + gap))
                                             (Fin (sz + (if numP > 0 then gap else 0))));
                     (rs, cs') = recurse_loop wallDim gap sz rest' totalDim numP (loop_counts maxN) cs
                 in (pushed @ rs, cs'))))"
| "recurse_loop wallDim gap sz rest totalDim numP [] cs = ([], cs)"
| "recurse_loop wallDim gap sz rest totalDim numP (n # ns) cs =
     (let c1 = counts_add cs sz n;
          (rs1, c2) = recurse wallDim gap rest (totalDim + real n * sz) (numP + n) c1;
          c3 = counts_prune (counts_sub c2 sz n) sz;
          (rs2, c4) = recurse_loop wallDim gap sz rest totalDim numP ns c3
      in (rs1 @ rs2, c4))"

definition solution_cmp :: "AxisSolution \<Rightarrow> AxisSolution \<Rightarrow> jsnum" where
  \<comment> \<open>the comparator of \<open>results.sort\<close>\<close>
  "solution_cmp a b =
     (let cd = js_sub (coverage b) (coverage a) in
      if js_gt (js_abs cd) (Fin 0.003) then cd
      else
        let distinct_diff = int (length (counts a)) - int (length (counts b)) in
        if distinct_diff \<noteq> 0 then Fin (real_of_int distinct_diff)
        else Fin (real_of_int (int (numPanels a) - int (numPanels b))))"

definition signature :: "counts \<Rightarrow> counts" where
  \<comment> \<open>the deduplication key: the entries sorted by ascending key. The source joins them
     into the string \<open>k1:v1,k2:v2,...\<close>; two such strings are equal exactly when the
     sorted entry lists are.\<close>
  "signature c = js_sort (\<lambda>(a, _) (b, _). Fin (a - b)) c"

fun unique_loop :: "counts list \<Rightarrow> AxisSolution list \<Rightarrow> AxisSolution list" where
  "unique_loop seen [] = []"
| "unique_loop seen (r # rs) =
     (let key = signature (counts r) in
      if key \<in> set seen then unique_loop seen rs
      else r # unique_loop (key # seen) rs)"

definition candidates :: "real \<Rightarrow> real \<Rightarrow> real list \<Rightarrow> AxisSolution list" where
  \<comment> \<open>\<open>results\<close> after \<open>recurse(0, 0, 0, {})\<close>, in push order\<close>
  "candidates wallDim gap sizes =
     fst (recurse wallDim gap (js_sort (\<lambda>a b. Fin (b - a)) sizes) 0 0 [])"

definition solveAxis :: "real \<Rightarrow> real \<Rightarrow> real list \<Rightarrow> AxisSolution list" where
  "solveAxis wallDim gap sizes =
     (if sizes = [] then []
      else take 12 (unique_loop [] (js_sort solution_cmp (candidates wallDim gap sizes))))"

section \<open>Arranging an axis\<close>

definition parseInt :: "real \<Rightarrow> real" where
  \<comment> \<open>\<open>parseInt(k)\<close> of a key written in decimal notation: the digits before the
     decimal point, that is, truncation toward zero. (Keys printed with an exponent, of magnitude \<open>1e21\<close> and above
     or below \<open>1e-6\<close>, are not covered.)\<close>
  "parseInt k = (if k \<ge> 0 then of_int \<lfloor>k\<rfloor> else of_int \<lceil>k\<rceil>)"

definition sorted_entries :: "counts \<Rightarrow> (real \<times> count) list" where
  \<comment> \<open>\<open>Object.entries(counts).map(([k, v]) => [parseInt(k), v]).sort(([a], [b]) => a - b)\<close>\<close>
  "sorted_entries c =
     js_sort (\<lambda>(a, _) (b, _). Fin (a - b)) (map (\<lambda>(k, v). (parseInt k, v)) c)"

fun iterations :: "count \<Rightarrow> nat" where
  \<comment> \<open>how often \<open>for (i = 0; i < count; i++)\<close> runs\<close>
  "iterations (Count v) = nat v"
| "iterations CountNaN = 0"

definition expand :: "counts \<Rightarrow> real list" where
  \<comment> \<open>the list \<open>all\<close>\<close>
  "expand c = concat (map (\<lambda>(sz, n). replicate (iterations n) sz) (sorted_entries c))"

definition arrangeAxis :: "counts \<Rightarrow> real list" where
  "arrangeAxis c =
     (let all = expand c in
      if length all \<le> 2 then all
      else
        let largest = js_list_max all;
            edges = filter (\<lambda>p. js_lt (Fin p) largest) all;
            middles = filter (\<lambda>p. Fin p = largest) all;
            leftEdge = take ((length edges + 1) div 2) edges;
            rightEdge = drop ((length edges + 1) div 2) edges
        in leftEdge @ middles @ rightEdge)"

definition describeCounts :: "counts \<Rightarrow> (real \<times> count) list" where
  \<comment> \<open>the source renders each entry as text and joins them; the model keeps the entries\<close>
  "describeCounts c = sorted_entries c"

section \<open>Layout composition\<close>

record PanelHole =
  hole_x :: real
  hole_y :: real
  hole_d :: real

record Panel =
  panel_x :: real
  panel_y :: real
  panel_w :: real
  panel_h :: real
  col :: nat
  row :: nat
  label :: "nat \<times> nat"  \<comment> \<open>the code unit of the row letter and the column number\<close>
  sizeLabel :: "real \<times> real"
  holes :: "PanelHole list"

record LayoutOption =
  opt_w :: AxisSolution
  opt_h :: AxisSolution
  totalCoverage :: jsnum
  totalPanels :: nat
  desc :: "(real \<times> count) list \<times> (real \<times> count) list"

datatype SpacingMode = Spacing | CountMode

datatype GridPattern = Rect | Hex

text \<open>The fields of \<open>PanelState\<close> that the engine reads.\<close>

record PanelState =
  grayPixels :: "real list option"
  imgWidth :: real
  imgHeight :: real
  wallW :: real
  wallH :: real
  panelGap :: real
  enabledWidths :: "real list"
  enabledHeights :: "real list"
  margin :: real
  spacingMode :: SpacingMode
  spacingX :: real
  spacingY :: real
  minSpacing :: real
  gridCols :: real
  gridRows :: real
  gridPattern :: GridPattern
  enabledHoleSizes :: "real list"
  threshold :: real
  gamma :: real
  selectedLayoutIdx :: int
  colWidths :: "real list"
  rowHeights :: "real list"
  panels :: "Panel list"

record LayoutResult =
  layoutOptions :: "LayoutOption list"
  built_panels :: "Panel list"
  built_colWidths :: "real list"
  built_rowHeights :: "real list"

definition combo :: "AxisSolution \<Rightarrow> AxisSolution \<Rightarrow> LayoutOption" where
  "combo w h =
     \<lparr>opt_w = w, opt_h = h,
      totalCoverage = js_div (js_add (coverage w) (coverage h)) (Fin 2),
      totalPanels = numPanels w * numPanels h,
      desc = (describeCounts (counts w), describeCounts (counts h))\<rparr>"

definition combo_cmp :: "LayoutOption \<Rightarrow> LayoutOption \<Rightarrow> jsnum" where
  \<comment> \<open>the comparator of \<open>combos.sort\<close>\<close>
  "combo_cmp a b =
     (let cd = js_sub (totalCoverage b) (totalCoverage a) in
      if js_gt (js_abs cd) (Fin 0.003) then cd
      else Fin (real_of_int (int (totalPanels a) - int (totalPanels b))))"

fun build_cols :: "real \<Rightarrow> real \<Rightarrow> real \<Rightarrow> nat \<Rightarrow> nat \<Rightarrow> real \<Rightarrow> real list \<Rightarrow> Panel list" where
  \<comment> \<open>the inner loop over \<open>c\<close>, from column \<open>c\<close> at \<open>xPos\<close>\<close>
  "build_cols gap yPos ph r c xPos [] = []"
| "build_cols gap yPos ph r c xPos (pw # cws) =
     \<lparr>panel_x = xPos, panel_y = yPos, panel_w = pw, panel_h = ph, col = c, row = r,
      label = ((65 + r) mod 65536, c + 1), sizeLabel = (pw, ph), holes = []\<rparr>
     # build_cols gap yPos ph r (c + 1) (xPos + pw + gap) cws"

fun build_rows :: "real \<Rightarrow> real \<Rightarrow> real list \<Rightarrow> nat \<Rightarrow> real \<Rightarrow> real list \<Rightarrow> Panel list" where
  \<comment> \<open>the outer loop over \<open>r\<close>, from row \<open>r\<close> at \<open>yPos\<close>\<close>
  "build_rows gap offsetX cws r yPos [] = []"
| "build_rows gap offsetX cws r yPos (ph # rhs) =
     build_cols gap yPos ph r 0 offsetX cws
     @ build_rows gap offsetX cws (r + 1) (yPos + ph + gap) rhs"

definition totalSpan :: "real \<Rightarrow> real list \<Rightarrow> real" where
  \<comment> \<open>\<open>xs.reduce((s, v) => s + v, 0) + (xs.length - 1) * gap\<close>\<close>
  "totalSpan gap xs = sum_list xs + real_of_int (int (length xs) - 1) * gap"

definition empty_result :: LayoutResult where
  "empty_result = \<lparr>layoutOptions = [], built_panels = [], built_colWidths = [], built_rowHeights = []\<rparr>"

definition solveAndBuildPanels :: "PanelState \<Rightarrow> LayoutResult" where
  "solveAndBuildPanels state =
     (let wSolutions = solveAxis (wallW state) (panelGap state) (enabledWidths state);
          hSolutions = solveAxis (wallH state) (panelGap state) (enabledHeights state)
      in
      if wSolutions = [] \<or> hSolutions = [] then empty_result
      else
        let combos = concat (map (\<lambda>w. map (\<lambda>h. combo w h) (take 6 hSolutions)) (take 6 wSolutions));
            options = take 15 (js_sort combo_cmp combos);
            idx = min (selectedLayoutIdx state) (int (length options) - 1)
        in
        if options = [] then empty_result
        else
          let opt = options ! nat (max 0 idx);
              cws = arrangeAxis (counts (opt_w opt));
              rhs = arrangeAxis (counts (opt_h opt));
              gap = panelGap state;
              offsetX = (wallW state - totalSpan gap cws) / 2;
              offsetY = (wallH state - totalSpan gap rhs) / 2
          in \<lparr>layoutOptions = options,
              built_panels = build_rows gap offsetX cws 0 offsetY rhs,
              built_colWidths = cws, built_rowHeights = rhs\<rparr>)"

section \<open>Sampling the grayscale field\<close>

definition js_index :: "real list \<Rightarrow> jsnum \<Rightarrow> jsnum" where
  \<comment> \<open>\<open>g[i]\<close> as an operand of arithmetic: a read outside the array is \<open>undefined\<close>,
     which arithmetic turns into \<open>NaN\<close>\<close>
  "js_index g i =
     (case i of
        Fin r \<Rightarrow> (if r = of_int \<lfloor>r\<rfloor> \<and> 0 \<le> r \<and> r < real (length g) then Fin (g ! nat \<lfloor>r\<rfloor>) else NaN)
      | _ \<Rightarrow> NaN)"

definition sampleImage :: "PanelState \<Rightarrow> jsnum \<Rightarrow> jsnum \<Rightarrow> jsnum" where
  "sampleImage state u v =
     (case grayPixels state of
        None \<Rightarrow> Fin 1
      | Some g \<Rightarrow>
          (let w = Fin (imgWidth state); h = Fin (imgHeight state);
               fx = js_mul (js_max (Fin 0) (js_min (Fin 1) u)) (js_sub w (Fin 1));
               fy = js_mul (js_max (Fin 0) (js_min (Fin 1) v)) (js_sub h (Fin 1));
               x0 = js_floor fx; y0 = js_floor fy;
               x1 = js_min (js_add x0 (Fin 1)) (js_sub w (Fin 1));
               y1 = js_min (js_add y0 (Fin 1)) (js_sub h (Fin 1));
               dx = js_sub fx x0; dy = js_sub fy y0
           in js_add
                (js_add
                  (js_add
                    (js_mul (js_mul (js_index g (js_add (js_mul y0 w) x0)) (js_sub (Fin 1) dx)) (js_sub (Fin 1) dy))
                    (js_mul (js_mul (js_index g (js_add (js_mul y0 w) x1)) dx) (js_sub (Fin 1) dy)))
                  (js_mul (js_mul (js_index g (js_add (js_mul y1 w) x0)) (js_sub (Fin 1) dx)) dy))
                (js_mul (js_mul (js_index g (js_add (js_mul y1 w) x1)) dx) dy)))"

section \<open>Hole computation\<close>

record HolesResult =
  holed_panels :: "Panel list"
  gridInfo :: "jsnum \<times> jsnum"

definition grid_dims :: "PanelState \<Rightarrow> real \<Rightarrow> real \<Rightarrow> jsnum \<times> jsnum" where
  \<comment> \<open>\<open>cols\<close> and \<open>rows\<close> of a panel whose interior is \<open>areaW\<close> by \<open>areaH\<close>\<close>
  "grid_dims state areaW areaH =
     (let m = margin state; minSp = minSpacing state in
      case spacingMode state of
        Spacing \<Rightarrow>
          (let sx = max minSp (spacingX state);
               sy = max minSp (spacingY state)
           in (js_max (Fin 1) (js_add (js_floor (js_div (Fin areaW) (Fin sx))) (Fin 1)),
               js_max (Fin 1) (js_add (js_floor (js_div (Fin areaH) (Fin sy))) (Fin 1))))
      | CountMode \<Rightarrow>
          (let refW = js_or (js_list_max (colWidths state)) (Fin 48);
               refH = js_or (js_list_max (rowHeights state)) (Fin 120);
               cols = js_max (Fin 1) (js_round (js_mul (Fin (gridCols state))
                        (js_div (Fin areaW) (js_sub refW (Fin (2 * m))))));
               rows = js_max (Fin 1) (js_round (js_mul (Fin (gridRows state))
                        (js_div (Fin areaH) (js_sub refH (Fin (2 * m))))));
               maxCols = js_add (js_floor (js_div (Fin areaW) (Fin minSp))) (Fin 1);
               maxRows = js_add (js_floor (js_div (Fin areaH) (Fin minSp))) (Fin 1)
           in (js_min cols maxCols, js_min rows maxRows)))"

definition lattice_row ::
  "real \<Rightarrow> GridPattern \<Rightarrow> real \<Rightarrow> real \<Rightarrow> real \<Rightarrow> real \<Rightarrow> nat \<Rightarrow> (real \<times> real) list" where
  \<comment> \<open>the candidate points \<open>(lx, ly)\<close> of row \<open>r\<close>, in the order of the loop over \<open>c\<close>,
     for finite \<open>cols\<close> and \<open>rows\<close>\<close>
  "lattice_row m pat areaW areaH cols rows r =
     (let isOdd = (r mod 2 = 1);
          cCols = (if pat = Hex \<and> isOdd then cols - 1 else cols);
          sx = (if cols > 1 then areaW / (cols - 1) else 0);
          xOff = (if pat = Hex \<and> isOdd then sx * 0.5 else 0)
      in map (\<lambda>c. (m + (if cols > 1 then real c * (areaW / (cols - 1)) else areaW / 2) + xOff,
                   m + (if rows > 1 then real r * (areaH / (rows - 1)) else areaH / 2)))
           [0 ..< nat \<lceil>cCols\<rceil>])"

fun snap_loop :: "jsnum \<Rightarrow> real \<Rightarrow> jsnum \<Rightarrow> real list \<Rightarrow> real" where
  \<comment> \<open>the scan over \<open>sizes[1..]\<close> for the nearest catalog diameter\<close>
  "snap_loop rawDiam bestSize bestDist [] = bestSize"
| "snap_loop rawDiam bestSize bestDist (s # ss) =
     (let dist = js_abs (js_sub rawDiam (Fin s)) in
      if js_lt dist bestDist then snap_loop rawDiam s dist ss
      else snap_loop rawDiam bestSize bestDist ss)"

definition brightness_at :: "PanelState \<Rightarrow> Panel \<Rightarrow> real \<Rightarrow> real \<Rightarrow> jsnum" where
  \<comment> \<open>the brightness sampled for the panel-local point \<open>(lx, ly)\<close>\<close>
  "brightness_at state p lx ly =
     sampleImage state (js_div (Fin (panel_x p + lx)) (Fin (wallW state)))
                       (js_div (Fin (panel_y p + ly)) (Fin (wallH state)))"

definition hole_at :: "PanelState \<Rightarrow> real list \<Rightarrow> Panel \<Rightarrow> real \<times> real \<Rightarrow> PanelHole option" where
  \<comment> \<open>the body of the loop over \<open>c\<close>: \<open>None\<close> is \<open>continue\<close>. \<open>sizes\<close> is sorted and not empty.\<close>
  "hole_at state sizes p pt =
     (let lx = fst pt; ly = snd pt;
          thresh = threshold state / 255; gam = gamma state;
          minD = hd sizes; maxD = last sizes
      in
      if lx < 0 \<or> lx > panel_w p \<or> ly < 0 \<or> ly > panel_h p then None
      else
        let brightness = brightness_at state p lx ly in
        if js_gt brightness (Fin thresh) then None
        else
          let t = js_pow (js_max (Fin 0) (js_min (Fin 1)
                    (js_sub (Fin 1) (js_div brightness (Fin thresh))))) gam;
              rawDiam = js_add (Fin minD) (js_mul t (Fin (maxD - minD)));
              bestSize = snap_loop rawDiam (hd sizes) (js_abs (js_sub rawDiam (Fin (hd sizes)))) (tl sizes)
          in Some \<lparr>hole_x = lx, hole_y = ly, hole_d = bestSize\<rparr>)"

definition panel_holes :: "PanelState \<Rightarrow> real list \<Rightarrow> Panel \<Rightarrow> PanelHole list option" where
  \<comment> \<open>the new \<open>holes\<close> of one panel; \<open>None\<close> when a loop bound is \<open>Infinity\<close> and the
     loop never ends. A bound that is \<open>NaN\<close> or not positive ends its loop at once.\<close>
  "panel_holes state sizes p =
     (let m = margin state;
          areaW = panel_w p - 2 * m; areaH = panel_h p - 2 * m
      in
      if areaW \<le> 0 \<or> areaH \<le> 0 then Some []
      else
        case grid_dims state areaW areaH of
          (cols, rows) \<Rightarrow>
            (case rows of
               PosInf \<Rightarrow> None
             | Fin R \<Rightarrow>
                 (if R \<le> 0 then Some []
                  else case cols of
                    PosInf \<Rightarrow> None
                  | Fin C \<Rightarrow>
                      Some (concat (map (\<lambda>r. List.map_filter (hole_at state sizes p)
                                             (lattice_row m (gridPattern state) areaW areaH C R r))
                                   [0 ..< nat \<lceil>R\<rceil>]))
                  | _ \<Rightarrow> Some [])
             | _ \<Rightarrow> Some []))"

fun holes_loop :: "PanelState \<Rightarrow> real list \<Rightarrow> Panel list \<Rightarrow> Panel list option" where
  \<comment> \<open>\<open>for (const panel of panels)\<close>\<close>
  "holes_loop state sizes [] = Some []"
| "holes_loop state sizes (p # ps) =
     (case panel_holes state sizes p of
        None \<Rightarrow> None
      | Some hs \<Rightarrow>
          (case holes_loop state sizes ps of
             None \<Rightarrow> None
           | Some ps' \<Rightarrow> Some (p\<lparr>holes := hs\<rparr> # ps')))"

fun lastGridInfo :: "PanelState \<Rightarrow> jsnum \<times> jsnum \<Rightarrow> Panel list \<Rightarrow> jsnum \<times> jsnum" where
  "lastGridInfo state info [] = info"
| "lastGridInfo state info (p # ps) =
     (let areaW = panel_w p - 2 * margin state; areaH = panel_h p - 2 * margin state in
      if areaW \<le> 0 \<or> areaH \<le> 0 then lastGridInfo state info ps
      else lastGridInfo state (grid_dims state areaW areaH) ps)"

definition no_holes :: "Panel list \<Rightarrow> HolesResult" where
  \<comment> \<open>the early exits: every panel's \<open>holes\<close> emptied\<close>
  "no_holes ps = \<lparr>holed_panels = map (\<lambda>p. p\<lparr>holes := []\<rparr>) ps, gridInfo = (Fin 0, Fin 0)\<rparr>"

definition computeAllHoles :: "PanelState \<Rightarrow> HolesResult option" where
  \<comment> \<open>\<open>None\<close>: the call does not return\<close>
  "computeAllHoles state =
     (case grayPixels state of
        None \<Rightarrow> Some (no_holes (panels state))
      | Some g \<Rightarrow>
          (let sizes = js_sort (\<lambda>a b. Fin (a - b)) (enabledHoleSizes state) in
           if sizes = [] then Some (no_holes (panels state))
           else case holes_loop state sizes (panels state) of
             None \<Rightarrow> None
           | Some ps \<Rightarrow>
               Some \<lparr>holed_panels = ps,
                     gridInfo = lastGridInfo state (Fin 0, Fin 0) (panels state)\<rparr>))"

section \<open>Evaluating the solver on concrete inputs\<close>

text \<open>
  The recursion threads the count map and the result list through nested bindings.
  The following combinators name the continuations of those bindings, so that a call
  on concrete arguments is unfolded by plain rewriting, innermost first.
\<close>

definition prepend :: "'a list \<Rightarrow> 'a list \<times> 'b \<Rightarrow> 'a list \<times> 'b" where
  "prepend rs p = (rs @ fst p, snd p)"

definition loop_join ::
  "AxisSolution list \<times> counts \<Rightarrow> real \<Rightarrow> real \<Rightarrow> real \<Rightarrow> real list \<Rightarrow> real \<Rightarrow> nat \<Rightarrow> nat \<Rightarrow> nat list
     \<Rightarrow> AxisSolution list \<times> counts" where
  "loop_join p w g sz rest td np n ns =
     prepend (fst p) (recurse_loop w g sz rest td np ns (counts_prune (counts_sub (snd p) sz n) sz))"

definition recurse_at ::
  "real \<Rightarrow> real \<Rightarrow> real list \<Rightarrow> real \<Rightarrow> nat \<Rightarrow> counts \<Rightarrow> real \<Rightarrow> AxisSolution list \<times> counts" where
  "recurse_at w g rest td np cs twg =
     (if twg > w + g + 0.01 then ([], cs)
      else prepend
        (if np > 0
         then [\<lparr>counts = cs, total = twg, coverage = js_div (Fin twg) (Fin w), numPanels = np\<rparr>]
         else [])
        (case rest of
           [] \<Rightarrow> ([], cs)
         | sz # rest' \<Rightarrow>
             recurse_loop w g sz rest' td np
               (loop_counts (js_floor (js_div (Fin (w - twg + g))
                                              (Fin (sz + (if np > 0 then g else 0)))))) cs))"

section \<open>Notions used to state the properties\<close>

definition cmp_le :: "('a \<Rightarrow> 'a \<Rightarrow> jsnum) \<Rightarrow> 'a \<Rightarrow> 'a \<Rightarrow> bool" where
  \<comment> \<open>the comparator does not ask for \<open>a\<close> to be placed after \<open>b\<close>\<close>
  "cmp_le cmp a b = (\<not> js_gt (cmp a b) (Fin 0))"

definition consistent_on :: "('a \<Rightarrow> 'a \<Rightarrow> jsnum) \<Rightarrow> 'a list \<Rightarrow> bool" where
  \<comment> \<open>the comparator is transitive on the elements of the list\<close>
  "consistent_on cmp xs =
     list_all (\<lambda>a. list_all (\<lambda>b. list_all (\<lambda>c.
       cmp_le cmp a b \<and> cmp_le cmp b c \<longrightarrow> cmp_le cmp a c) xs) xs) xs"

definition counts_mset :: "counts \<Rightarrow> real multiset" where
  \<comment> \<open>the multiset of lengths that a count map stands for\<close>
  "counts_mset c = (\<Sum>(k, v) \<leftarrow> c. replicate_mset (iterations v) k)"

definition contiguous_run :: "'a \<Rightarrow> 'a list \<Rightarrow> bool" where
  \<comment> \<open>all occurrences of \<open>x\<close> are adjacent\<close>
  "contiguous_run x xs = (x \<notin> set (dropWhile (\<lambda>y. y = x) (dropWhile (\<lambda>y. y \<noteq> x) xs)))"

definition close_coverage :: "AxisSolution \<Rightarrow> AxisSolution \<Rightarrow> bool" where
  \<comment> \<open>the coverages differ by less than \<open>0.003\<close>\<close>
  "close_coverage a b = js_lt (js_abs (js_sub (coverage a) (coverage b))) (Fin 0.003)"

definition sizes_used :: "AxisSolution \<Rightarrow> nat" where
  \<comment> \<open>the number of distinct sizes with a positive count\<close>
  "sizes_used s = length (filter (\<lambda>(k, v). 0 < iterations v) (counts s))"

definition well_formed :: "PanelState \<Rightarrow> bool" where
  \<comment> \<open>the wall has an extent, and the pixel buffer has the size of the image\<close>
  "well_formed st =
     (wallW st \<noteq> 0 \<and> wallH st \<noteq> 0 \<and>
      (case grayPixels st of
         None \<Rightarrow> True
       | Some g \<Rightarrow> \<exists>W H. 0 < W \<and> 0 < H \<and> imgWidth st = real W \<and> imgHeight st = real H
                       \<and> length g = W * H))"


section \<open>Concrete inputs\<close>

text \<open>
  The default state of the application, and a state with one panel of 7 by 5 in front of
  a black image of one pixel, on the staggered pattern.
\<close>

definition DEFAULT_PANEL_STATE :: PanelState where
  "DEFAULT_PANEL_STATE =
     \<lparr>grayPixels = None, imgWidth = 0, imgHeight = 0,
      wallW = 240, wallH = 120, panelGap = 1 / 4,
      enabledWidths = [24, 48], enabledHeights = [96, 120, 144], margin = 1,
      spacingMode = Spacing, spacingX = 2, spacingY = 2, minSpacing = 2,
      gridCols = 46, gridRows = 118, gridPattern = Rect,
      enabledHoleSizes = [3 / 2, 5 / 4, 1, 3 / 4, 5 / 8, 1 / 2, 1 / 4],
      threshold = 245, gamma = 1, selectedLayoutIdx = 0,
      colWidths = [], rowHeights = [], panels = []\<rparr>"

definition test_panel :: Panel where
  "test_panel =
     \<lparr>panel_x = 0, panel_y = 0, panel_w = 7, panel_h = 5, col = 0, row = 0,
      label = (65, 1), sizeLabel = (7, 5), holes = []\<rparr>"

definition black_state :: PanelState where
  "black_state =
     DEFAULT_PANEL_STATE\<lparr>grayPixels := Some [0], imgWidth := 1, imgHeight := 1,
       gridPattern := Hex, panels := [test_panel]\<rparr>"

definition black_holes :: "real \<Rightarrow> PanelHole list" where
  "black_holes d =
     [\<lparr>hole_x = 1, hole_y = 1, hole_d = d\<rparr>,
      \<lparr>hole_x = 7 / 2, hole_y = 1, hole_d = d\<rparr>,
      \<lparr>hole_x = 6, hole_y = 1, hole_d = d\<rparr>,
      \<lparr>hole_x = 9 / 4, hole_y = 4, hole_d = d\<rparr>,
      \<lparr>hole_x = 19 / 4, hole_y = 4, hole_d = d\<rparr>]"

definition black_result :: "real \<Rightarrow> HolesResult" where
  "black_result d =
     \<lparr>holed_panels = [test_panel\<lparr>holes := black_holes d\<rparr>], gridInfo = (Fin 3, Fin 2)\<rparr>"

declare recurse.simps [simp del]

lemma prepend_pair: "prepend rs (rs', c) = (rs @ rs', c)"
  by (simp add: prepend_def)

lemma loop_join_pair:
  "loop_join (rs1, c2) w g sz rest td np n ns =
     prepend rs1 (recurse_loop w g sz rest td np ns (counts_prune (counts_sub c2 sz n) sz))"
  by (simp add: loop_join_def)

lemma recurse_loop_Cons_eval:
  "recurse_loop w g sz rest td np (n # ns) cs =
     loop_join (recurse w g rest (td + real n * sz) (np + n) (counts_add cs sz n))
       w g sz rest td np n ns"
  by (simp add: loop_join_def prepend_def Let_def split: prod.splits)

lemma recurse_loop_Nil_eval: "recurse_loop w g sz rest td np [] cs = ([], cs)"
  by simp

lemma recurse_eval:
  "recurse w g rest td np cs =
     recurse_at w g rest td np cs (td + real_of_int (max 0 (int np - 1)) * g)"
  by (subst recurse.simps) (simp add: recurse_at_def prepend_def Let_def split: list.splits prod.splits)

lemma upt_eval: "[i..<j] = (if i < j then i # [i + 1..<j] else [])"
  by (simp add: upt_rec)

lemma unique_loop_Cons_eval:
  "unique_loop seen (r # rs) =
     (if signature (counts r) \<in> set seen then unique_loop seen rs
      else r # unique_loop (signature (counts r) # seen) rs)"
  by (simp add: Let_def)

declare recurse_loop.simps [simp del] unique_loop.simps(2) [simp del]

lemmas eval_candidates =
  candidates_def js_sort_def js_gt_def recurse_eval recurse_at_def recurse_loop_Cons_eval
  recurse_loop_Nil_eval loop_join_pair prepend_pair loop_counts_def
  counts_add_def counts_sub_def counts_prune_def inf_of_sign_def upt_eval

lemmas eval_sort = js_sort_def js_gt_def js_sub_def solution_cmp_def inf_of_sign_def

lemmas eval_unique = unique_loop_Cons_eval signature_def js_sort_def js_gt_def

section \<open>The solver's results\<close>

lemma set_js_insert: "set (js_insert cmp x ys) = insert x (set ys)"
  by (induction ys) auto

lemma set_js_sort: "set (js_sort cmp xs) = set xs"
  by (induction xs) (simp_all add: js_sort_def set_js_insert)

lemma set_unique_loop: "set (unique_loop seen rs) \<subseteq> set rs"
  by (induction rs arbitrary: seen) (auto simp: Let_def unique_loop.simps)

lemma solveAxis_subset: "set (solveAxis w g sizes) \<subseteq> set (candidates w g sizes)"
proof -
  have "set (take 12 (unique_loop [] (js_sort solution_cmp (candidates w g sizes))))
          \<subseteq> set (unique_loop [] (js_sort solution_cmp (candidates w g sizes)))"
    by (rule set_take_subset)
  also have "\<dots> \<subseteq> set (js_sort solution_cmp (candidates w g sizes))"
    by (rule set_unique_loop)
  finally show ?thesis
    by (simp add: solveAxis_def set_js_sort)
qed

lemma recurse_total_bound:
  "\<forall>s \<in> set (fst (recurse w g rest td np cs)). total s \<le> w + g + 0.01"
  "\<forall>s \<in> set (fst (recurse_loop w g sz rest td np ns cs)). total s \<le> w + g + 0.01"
proof (induction w g rest td np cs and w g sz rest td np ns cs rule: recurse_recurse_loop.induct)
  case (1 wallDim gap rest totalDim numP cs)
  then show ?case
    by (subst recurse.simps) (auto simp: Let_def split: list.splits prod.splits if_splits)
next
  case (2 wallDim gap sz rest totalDim numP cs)
  then show ?case by (simp add: recurse_loop.simps)
next
  case (3 wallDim gap sz rest totalDim numP n ns cs)
  then show ?case
    by (auto simp: Let_def recurse_loop.simps split: prod.splits)
qed

lemma solveAxis_60:
  "solveAxis 60 (1 / 4) [24, 48] =
     [\<lparr>counts = [(48, Count 0), (24, Count 2)], total = 193 / 4, coverage = Fin (193 / 240), numPanels = 2\<rparr>,
      \<lparr>counts = [(48, Count 1)], total = 48, coverage = Fin (4 / 5), numPanels = 1\<rparr>,
      \<lparr>counts = [(48, Count 1), (24, Count 0)], total = 48, coverage = Fin (4 / 5), numPanels = 1\<rparr>,
      \<lparr>counts = [(48, Count 0), (24, Count 1)], total = 24, coverage = Fin (2 / 5), numPanels = 1\<rparr>]"
proof -
  have c: "candidates 60 (1 / 4) [24, 48] =
     [\<lparr>counts = [(48, Count 0), (24, Count 1)], total = 24, coverage = Fin (2 / 5), numPanels = 1\<rparr>,
      \<lparr>counts = [(48, Count 0), (24, Count 2)], total = 193 / 4, coverage = Fin (193 / 240), numPanels = 2\<rparr>,
      \<lparr>counts = [(48, Count 1)], total = 48, coverage = Fin (4 / 5), numPanels = 1\<rparr>,
      \<lparr>counts = [(48, Count 1), (24, Count 0)], total = 48, coverage = Fin (4 / 5), numPanels = 1\<rparr>]"
    by (simp add: eval_candidates)
  show ?thesis
    apply (simp add: solveAxis_def c)
    apply (simp add: eval_sort)
    apply (simp add: eval_unique)
    done
qed

text \<open>
  C1. For a wall extent \<open>w > 0\<close>, a gap \<open>\<ge> 0\<close> and any size catalog, every solution that
  \<open>solveAxis\<close> returns has \<open>total \<le> w + gap + 0.01\<close>.
\<close>

theorem solveAxis_total_le:
  assumes "0 < w" and "0 \<le> gap" and "s \<in> set (solveAxis w gap sizes)"
  shows "total s \<le> w + gap + 0.01"
proof -
  from assms(3) have "s \<in> set (candidates w gap sizes)"
    using solveAxis_subset by blast
  then show ?thesis
    unfolding candidates_def using recurse_total_bound(1) by blast
qed

theorem solveAxis_total_le_witness:
  "(0 :: real) < 60 \<and> (0 :: real) \<le> 1 / 4
   \<and> \<lparr>counts = [(48, Count 0), (24, Count 2)], total = 193 / 4, coverage = Fin (193 / 240), numPanels = 2\<rparr>
         \<in> set (solveAxis 60 (1 / 4) [24, 48])
   \<and> total \<lparr>counts = [(48, Count 0), (24, Count 2)], total = 193 / 4, coverage = Fin (193 / 240), numPanels = 2\<rparr>
         \<le> 60 + 1 / 4 + 0.01"
proof -
  have m: "\<lparr>counts = [(48, Count 0), (24, Count 2)], total = 193 / 4, coverage = Fin (193 / 240), numPanels = 2\<rparr>
         \<in> set (solveAxis 60 (1 / 4) [24, 48])"
    by (simp add: solveAxis_60)
  have "(0 :: real) < 60" and "(0 :: real) \<le> 1 / 4" by simp_all
  from solveAxis_total_le [OF this m] m show ?thesis by simp
qed

section \<open>Sorting with a comparator\<close>

lemma sorted_wrt_js_insert:
  assumes tr: "\<And>a b c. a \<in> insert x (set ys) \<Longrightarrow> b \<in> insert x (set ys) \<Longrightarrow> c \<in> insert x (set ys)
             \<Longrightarrow> cmp_le cmp a b \<Longrightarrow> cmp_le cmp b c \<Longrightarrow> cmp_le cmp a c"
    and tot: "\<And>a b. a \<in> insert x (set ys) \<Longrightarrow> b \<in> insert x (set ys) \<Longrightarrow> \<not> cmp_le cmp a b \<Longrightarrow> cmp_le cmp b a"
    and srt: "sorted_wrt (cmp_le cmp) ys"
  shows "sorted_wrt (cmp_le cmp) (js_insert cmp x ys)"
  using assms
proof (induction ys)
  case Nil
  show ?case by simp
next
  case (Cons y ys)
  have sy: "sorted_wrt (cmp_le cmp) ys" and yz: "\<And>z. z \<in> set ys \<Longrightarrow> cmp_le cmp y z"
    using Cons.prems(3) by auto
  show ?case
  proof (cases "cmp_le cmp x y")
    case True
    have "cmp_le cmp x z" if "z \<in> set ys" for z
    proof (rule Cons.prems(1) [of x y z])
      show "x \<in> insert x (set (y # ys))" by simp
      show "y \<in> insert x (set (y # ys))" by simp
      show "z \<in> insert x (set (y # ys))" using that by simp
      show "cmp_le cmp x y" by (rule True)
      show "cmp_le cmp y z" using that by (rule yz)
    qed
    with True Cons.prems(3) show ?thesis by (simp add: cmp_le_def)
  next
    case False
    have yx: "cmp_le cmp y x"
      by (rule Cons.prems(2) [of x y]) (use False in simp_all)
    have ih: "sorted_wrt (cmp_le cmp) (js_insert cmp x ys)"
    proof (rule Cons.IH)
      fix a b c
      assume "a \<in> insert x (set ys)" "b \<in> insert x (set ys)" "c \<in> insert x (set ys)"
        "cmp_le cmp a b" "cmp_le cmp b c"
      then show "cmp_le cmp a c"
        using Cons.prems(1) [of a b c] by auto
    next
      fix a b
      assume "a \<in> insert x (set ys)" "b \<in> insert x (set ys)" "\<not> cmp_le cmp a b"
      then show "cmp_le cmp b a"
        using Cons.prems(2) [of a b] by auto
    next
      show "sorted_wrt (cmp_le cmp) ys" by (rule sy)
    qed
    have "\<forall>z \<in> set (js_insert cmp x ys). cmp_le cmp y z"
      using yx yz by (auto simp: set_js_insert)
    moreover have "js_gt (cmp x y) (Fin 0)"
      using False by (simp add: cmp_le_def)
    ultimately show ?thesis
      using ih by simp
  qed
qed

lemma sorted_wrt_js_sort:
  assumes tr: "\<And>a b c. a \<in> set xs \<Longrightarrow> b \<in> set xs \<Longrightarrow> c \<in> set xs
             \<Longrightarrow> cmp_le cmp a b \<Longrightarrow> cmp_le cmp b c \<Longrightarrow> cmp_le cmp a c"
    and tot: "\<And>a b. a \<in> set xs \<Longrightarrow> b \<in> set xs \<Longrightarrow> \<not> cmp_le cmp a b \<Longrightarrow> cmp_le cmp b a"
  shows "sorted_wrt (cmp_le cmp) (js_sort cmp xs)"
  using assms
proof (induction xs)
  case Nil
  show ?case by (simp add: js_sort_def)
next
  case (Cons x xs)
  have s: "sorted_wrt (cmp_le cmp) (js_sort cmp xs)"
  proof (rule Cons.IH)
    fix a b c
    assume "a \<in> set xs" "b \<in> set xs" "c \<in> set xs" "cmp_le cmp a b" "cmp_le cmp b c"
    then show "cmp_le cmp a c" using Cons.prems(1) [of a b c] by auto
  next
    fix a b
    assume "a \<in> set xs" "b \<in> set xs" "\<not> cmp_le cmp a b"
    then show "cmp_le cmp b a" using Cons.prems(2) [of a b] by auto
  qed
  have "sorted_wrt (cmp_le cmp) (js_insert cmp x (js_sort cmp xs))"
  proof (rule sorted_wrt_js_insert)
    fix a b c
    assume "a \<in> insert x (set (js_sort cmp xs))" "b \<in> insert x (set (js_sort cmp xs))"
      "c \<in> insert x (set (js_sort cmp xs))" "cmp_le cmp a b" "cmp_le cmp b c"
    then show "cmp_le cmp a c" using Cons.prems(1) [of a b c] by (auto simp: set_js_sort)
  next
    fix a b
    assume "a \<in> insert x (set (js_sort cmp xs))" "b \<in> insert x (set (js_sort cmp xs))"
      "\<not> cmp_le cmp a b"
    then show "cmp_le cmp b a" using Cons.prems(2) [of a b] by (auto simp: set_js_sort)
  next
    show "sorted_wrt (cmp_le cmp) (js_sort cmp xs)" by (rule s)
  qed
  then show ?case by (simp add: js_sort_def)
qed

lemma mset_js_insert: "mset (js_insert cmp x ys) = add_mset x (mset ys)"
  by (induction ys) auto

lemma mset_js_sort: "mset (js_sort cmp xs) = mset xs"
  by (induction xs) (simp_all add: js_sort_def mset_js_insert)

section \<open>Arranging an axis: properties\<close>

lemma cmp_le_key: "cmp_le (\<lambda>(a, _) (b, _). Fin (a - b)) p q \<longleftrightarrow> fst p \<le> fst q"
  by (cases p; cases q) (simp add: cmp_le_def js_gt_def not_less)

lemma sorted_key_sort:
  "sorted (map fst (js_sort (\<lambda>(a, _) (b, _). Fin (a - b)) (xs :: (real \<times> 'b) list)))"
proof -
  let ?cmp = "\<lambda>(a :: real, _ :: 'b) (b :: real, _ :: 'b). Fin (a - b)"
  have eq: "cmp_le ?cmp = (\<lambda>p q. fst p \<le> fst q)"
    by (intro ext) (rule cmp_le_key)
  have "sorted_wrt (cmp_le ?cmp) (js_sort ?cmp xs)"
    by (rule sorted_wrt_js_sort) (auto simp only: cmp_le_key)
  then show ?thesis by (simp only: eq sorted_map)
qed

lemma sorted_expansion:
  "sorted (map fst es) \<Longrightarrow> sorted (concat (map (\<lambda>(sz, n). replicate (iterations n) sz) es))"
proof (induction es)
  case Nil
  then show ?case by simp
next
  case (Cons e es)
  obtain k v where e: "e = (k, v)" by (cases e)
  from Cons.prems have le: "\<forall>p \<in> set es. k \<le> fst p" and s: "sorted (map fst es)"
    by (auto simp: e)
  have "\<forall>y \<in> set (concat (map (\<lambda>(sz, n). replicate (iterations n) sz) es)). k \<le> y"
    using le by (auto split: prod.splits)
  with Cons.IH [OF s] show ?case
    by (auto simp: e sorted_append)
qed

lemma sorted_expand: "sorted (expand c)"
  unfolding expand_def sorted_entries_def
  by (rule sorted_expansion) (rule sorted_key_sort)

lemma mset_expansion:
  "mset (concat (map (\<lambda>(sz, n). replicate (iterations n) sz) es)) = counts_mset es"
  by (induction es) (auto simp: counts_mset_def)

lemma counts_mset_perm: "mset es = mset es' \<Longrightarrow> counts_mset es = counts_mset es'"
proof -
  assume "mset es = mset es'"
  then have "image_mset (\<lambda>(k, v). replicate_mset (iterations v) k) (mset es)
           = image_mset (\<lambda>(k, v). replicate_mset (iterations v) k) (mset es')"
    by simp
  then have "\<Sum>\<^sub># (mset (map (\<lambda>(k, v). replicate_mset (iterations v) k) es))
           = \<Sum>\<^sub># (mset (map (\<lambda>(k, v). replicate_mset (iterations v) k) es'))"
    by simp
  then show ?thesis
    unfolding counts_mset_def sum_mset_sum_list .
qed

lemma mset_expand:
  assumes "\<forall>(k, v) \<in> set c. parseInt k = k"
  shows "mset (expand c) = counts_mset c"
proof -
  have "map (\<lambda>(k, v). (parseInt k, v)) c = c"
    using assms by (induction c) auto
  then have "mset (sorted_entries c) = mset c"
    by (simp add: sorted_entries_def mset_js_sort)
  then show ?thesis
    unfolding expand_def mset_expansion by (rule counts_mset_perm)
qed

lemma js_list_max_Max: "xs \<noteq> [] \<Longrightarrow> js_list_max xs = Fin (Max (set xs))"
proof (induction xs)
  case Nil
  then show ?case by simp
next
  case (Cons x xs)
  show ?case
  proof (cases "xs = []")
    case True
    then show ?thesis by (simp add: js_list_max_def)
  next
    case False
    with Cons.IH have "js_list_max xs = Fin (Max (set xs))" by simp
    then have "js_list_max (x # xs) = Fin (max x (Max (set xs)))"
      by (simp add: js_list_max_def max_def)
    with False show ?thesis by simp
  qed
qed

lemma sorted_split_at:
  "sorted xs \<Longrightarrow> xs = filter (\<lambda>x. x < a) xs @ filter (\<lambda>x. a \<le> x) (xs :: real list)"
proof (induction xs)
  case Nil
  then show ?case by simp
next
  case (Cons x xs)
  show ?case
  proof (cases "x < a")
    case True
    with Cons show ?thesis by simp
  next
    case False
    with Cons.prems have "\<forall>y \<in> set (x # xs). \<not> y < a" by auto
    then have "filter (\<lambda>x. x < a) (x # xs) = []" and "filter (\<lambda>x. a \<le> x) (x # xs) = x # xs"
      by (auto simp: filter_empty_conv filter_id_conv)
    then show ?thesis by simp
  qed
qed

lemma arrange_sorted:
  fixes xs :: "real list"
  assumes "sorted xs" and "xs \<noteq> []"
  defines "L \<equiv> Max (set xs)"
  defines "es \<equiv> filter (\<lambda>x. x < L) xs"
  defines "ms \<equiv> filter (\<lambda>x. x = L) xs"
  shows "xs = es @ ms" and "ms \<noteq> []"
    and "es = sorted_list_of_multiset (filter_mset (\<lambda>x. x < L) (mset xs))"
    and "ms = replicate (count (mset xs) L) L"
proof -
  have le: "\<forall>x \<in> set xs. x \<le> L"
    unfolding L_def by simp
  have "filter (\<lambda>x. L \<le> x) xs = ms"
    unfolding ms_def using le by (intro filter_cong) auto
  with sorted_split_at [OF assms(1), of L] show "xs = es @ ms"
    by (simp add: es_def)
  have "L \<in> set xs"
    unfolding L_def using assms(2) by simp
  then show "ms \<noteq> []"
    by (auto simp: ms_def filter_empty_conv)
  have "sorted es"
    unfolding es_def using sorted_filter [of "\<lambda>x. x" xs] assms(1) by simp
  then have "sort es = es" by (rule sorted_sort_id)
  then show "es = sorted_list_of_multiset (filter_mset (\<lambda>x. x < L) (mset xs))"
    by (simp add: es_def flip: mset_filter sorted_list_of_multiset_mset)
  have "(\<lambda>x. x = L) = (=) L" by auto
  then show "ms = replicate (count (mset xs) L) L"
    by (simp add: ms_def replicate_count_mset_eq_filter_eq)
qed

lemma arrangeAxis_expand:
  assumes "expand c \<noteq> []"
  defines "L \<equiv> Max (set (expand c))"
  defines "es \<equiv> filter (\<lambda>x. x < L) (expand c)"
  defines "ms \<equiv> filter (\<lambda>x. x = L) (expand c)"
  shows "arrangeAxis c = take ((length es + 1) div 2) es @ ms @ drop ((length es + 1) div 2) es"
proof (cases "length (expand c) \<le> 2")
  case True
  have split: "expand c = es @ ms" and "ms \<noteq> []"
    using arrange_sorted(1,2) [OF sorted_expand assms(1)] by (simp_all add: es_def ms_def L_def)
  with True have "length es \<le> 1"
    by (cases ms) (auto simp: split)
  then have "(length es + 1) div 2 = length es" by (cases es) auto
  with True split show ?thesis by (simp add: arrangeAxis_def)
next
  case False
  have "js_list_max (expand c) = Fin L"
    unfolding L_def by (rule js_list_max_Max [OF assms(1)])
  with False show ?thesis
    by (simp add: arrangeAxis_def Let_def es_def ms_def)
qed

text \<open>
  C2, as amended. For a count map whose keys are whole numbers, \<open>arrangeAxis\<close> returns a
  permutation of the lengths the map stands for, in which the largest length forms one
  contiguous run, preceded by the first \<open>ceil(e / 2)\<close> of the \<open>e\<close> smaller lengths in ascending
  order and followed by the others.
\<close>

theorem arrangeAxis_largest_central:
  assumes whole: "list_all (\<lambda>(k, v). parseInt k = k) c"
  shows "mset (arrangeAxis c) = counts_mset c \<and>
         arrangeAxis c =
           (let M = counts_mset c; L = Max (set_mset M);
                es = sorted_list_of_multiset (filter_mset (\<lambda>x. x < L) M);
                h = (length es + 1) div 2
            in take h es @ replicate (count M L) L @ drop h es)"
proof -
  from whole have assms: "\<forall>(k, v) \<in> set c. parseInt k = k"
    by (simp add: list_all_iff)
  show ?thesis
  proof (cases "expand c = []")
  case True
  then have "counts_mset c = {#}"
    using mset_expand [OF assms] by simp
  with True show ?thesis
    by (simp add: arrangeAxis_def)
next
  case False
  let ?L = "Max (set (expand c))"
  let ?es = "filter (\<lambda>x. x < ?L) (expand c)"
  let ?ms = "filter (\<lambda>x. x = ?L) (expand c)"
  let ?h = "(length ?es + 1) div 2"
  have M: "mset (expand c) = counts_mset c" by (rule mset_expand [OF assms])
  then have S: "set_mset (counts_mset c) = set (expand c)"
    by (metis set_mset_mset)
  have eq: "arrangeAxis c = take ?h ?es @ ?ms @ drop ?h ?es"
    by (rule arrangeAxis_expand [OF False])
  have td: "mset (take ?h ?es) + mset (drop ?h ?es) = mset ?es"
    by (metis append_take_drop_id mset_append)
  have "mset (take ?h ?es @ ?ms @ drop ?h ?es) = (mset (take ?h ?es) + mset (drop ?h ?es)) + mset ?ms"
    by (simp only: mset_append ac_simps)
  also have "\<dots> = mset (?es @ ?ms)"
    by (simp only: td mset_append)
  also have "\<dots> = mset (expand c)"
    using arrange_sorted(1) [OF sorted_expand False] by simp
  finally have perm: "mset (arrangeAxis c) = counts_mset c"
    by (simp only: eq M)
  have "?es = sorted_list_of_multiset (filter_mset (\<lambda>x. x < ?L) (counts_mset c))"
    using arrange_sorted(3) [OF sorted_expand False] by (simp only: M)
  moreover have "?ms = replicate (count (counts_mset c) ?L) ?L"
    using arrange_sorted(4) [OF sorted_expand False] by (simp only: M)
  ultimately have "arrangeAxis c =
           (let M = counts_mset c; L = Max (set_mset M);
                es = sorted_list_of_multiset (filter_mset (\<lambda>x. x < L) M);
                h = (length es + 1) div 2
            in take h es @ replicate (count M L) L @ drop h es)"
    unfolding Let_def S using eq by simp
  with perm show ?thesis by simp
  qed
qed

lemma replicate_eval: "replicate n x = (if n = 0 then [] else x # replicate (n - 1) x)"
  by (cases n) simp_all

lemma arrangeAxis_example: "arrangeAxis [(48, Count 1), (24, Count 3)] = [24, 24, 48, 24]"
  by (simp add: arrangeAxis_def expand_def sorted_entries_def js_sort_def parseInt_def js_list_max_def js_gt_def replicate_eval Let_def)

text \<open>
  C2 as stated fails: with three panels of 24 and one of 48 the most frequent length is 24,
  and its occurrences are split around the single 48.
\<close>

theorem arrangeAxis_most_frequent_counterexample:
  "arrangeAxis [(48, Count 1), (24, Count 3)] = [24, 24, 48, 24]
   \<and> \<not> contiguous_run 24 (arrangeAxis [(48, Count 1), (24, Count 3)])"
  by (simp add: arrangeAxis_example contiguous_run_def)

theorem arrangeAxis_largest_central_witness:
  "list_all (\<lambda>(k, v). parseInt k = k) [(48, Count 1), (24, Count 3)]
   \<and> mset (arrangeAxis [(48, Count 1), (24, Count 3)]) = counts_mset [(48, Count 1), (24, Count 3)]"
proof -
  have h: "list_all (\<lambda>(k, v). parseInt k = k) [(48, Count 1), (24, Count 3)]"
    by (simp add: parseInt_def)
  from arrangeAxis_largest_central [OF h]
  have "mset (arrangeAxis [(48, Count 1), (24, Count 3)]) = counts_mset [(48, Count 1), (24, Count 3)]"
    by (rule conjunct1)
  with h show ?thesis by (rule conjI)
qed



section \<open>Ranking of the solver's results\<close>

lemma close_coverage_Fin:
  assumes "close_coverage a b"
  obtains ca cb where "coverage a = Fin ca" "coverage b = Fin cb" "\<bar>ca - cb\<bar> < 0.003"
  using assms unfolding close_coverage_def js_sub_def
  by (cases "coverage a"; cases "coverage b") auto

lemma solution_cmp_total:
  "\<not> cmp_le solution_cmp a b \<Longrightarrow> cmp_le solution_cmp b a"
  unfolding cmp_le_def solution_cmp_def js_sub_def js_gt_def Let_def
  by (cases "coverage a"; cases "coverage b") (auto split: if_splits)

lemma solution_cmp_close:
  assumes "close_coverage a b" and "cmp_le solution_cmp a b"
  shows "length (counts a) < length (counts b)
         \<or> (length (counts a) = length (counts b) \<and> numPanels a \<le> numPanels b)"
proof -
  from assms(1) obtain ca cb where c: "coverage a = Fin ca" "coverage b = Fin cb" "\<bar>ca - cb\<bar> < 0.003"
    by (rule close_coverage_Fin)
  from assms(2) c show ?thesis
    unfolding cmp_le_def solution_cmp_def js_sub_def js_gt_def Let_def
    by (auto split: if_splits)
qed

lemma sorted_wrt_unique_loop:
  "sorted_wrt P rs \<Longrightarrow> sorted_wrt P (unique_loop seen rs)"
proof (induction rs arbitrary: seen)
  case Nil
  then show ?case by simp
next
  case (Cons r rs)
  then show ?case
    using set_unique_loop [of "signature (counts r) # seen" rs]
    by (auto simp: unique_loop.simps Let_def)
qed

lemma unique_loop_signatures:
  "distinct (map (\<lambda>s. signature (counts s)) (unique_loop seen rs))
   \<and> (\<forall>s \<in> set (unique_loop seen rs). signature (counts s) \<notin> set seen)"
proof (induction rs arbitrary: seen)
  case Nil
  then show ?case by simp
next
  case (Cons r rs)
  show ?case
  proof (cases "signature (counts r) \<in> set seen")
    case True
    with Cons.IH [of seen] show ?thesis by (simp add: unique_loop.simps)
  next
    case False
    with Cons.IH [of "signature (counts r) # seen"] show ?thesis
      by (auto simp: unique_loop.simps Let_def)
  qed
qed

lemma solveAxis_sorted:
  assumes "consistent_on solution_cmp (candidates w g sizes)"
  shows "sorted_wrt (cmp_le solution_cmp) (solveAxis w g sizes)"
proof (cases "sizes = []")
  case True
  then show ?thesis by (simp add: solveAxis_def)
next
  case False
  have "sorted_wrt (cmp_le solution_cmp) (js_sort solution_cmp (candidates w g sizes))"
  proof (rule sorted_wrt_js_sort)
    fix a b c
    assume "a \<in> set (candidates w g sizes)" "b \<in> set (candidates w g sizes)"
      "c \<in> set (candidates w g sizes)" "cmp_le solution_cmp a b" "cmp_le solution_cmp b c"
    with assms show "cmp_le solution_cmp a c"
      unfolding consistent_on_def list_all_iff by blast
  next
    fix a b
    assume "\<not> cmp_le solution_cmp a b"
    then show "cmp_le solution_cmp b a" by (rule solution_cmp_total)
  qed
  then have "sorted_wrt (cmp_le solution_cmp)
     (take 12 (unique_loop [] (js_sort solution_cmp (candidates w g sizes))))"
    by (intro sorted_wrt_take sorted_wrt_unique_loop)
  with False show ?thesis by (simp add: solveAxis_def)
qed

lemma solveAxis_signatures:
  "length (solveAxis w g sizes) \<le> 12
   \<and> distinct (map (\<lambda>s. signature (counts s)) (solveAxis w g sizes))"
proof
  show "length (solveAxis w g sizes) \<le> 12"
    by (simp add: solveAxis_def)
  have "distinct (map (\<lambda>s. signature (counts s))
          (unique_loop [] (js_sort solution_cmp (candidates w g sizes))))"
    using unique_loop_signatures by blast
  then have "distinct (take 12 (map (\<lambda>s. signature (counts s))
          (unique_loop [] (js_sort solution_cmp (candidates w g sizes)))))"
    by (rule distinct_take)
  then show "distinct (map (\<lambda>s. signature (counts s)) (solveAxis w g sizes))"
    by (simp add: solveAxis_def take_map)
qed

text \<open>
  What the comparator orders by: where it is transitive on the candidates, two returned
  solutions of close coverage are ordered by the number of keys of their count maps, then
  by panel count.
\<close>

lemma solveAxis_close_pairs_by_keys:
  assumes c: "consistent_on solution_cmp (candidates w g sizes)"
    and ij: "i < j" "j < length (solveAxis w g sizes)"
    and cl: "close_coverage (solveAxis w g sizes ! i) (solveAxis w g sizes ! j)"
  shows "length (counts (solveAxis w g sizes ! i)) < length (counts (solveAxis w g sizes ! j))
         \<or> (length (counts (solveAxis w g sizes ! i)) = length (counts (solveAxis w g sizes ! j))
             \<and> numPanels (solveAxis w g sizes ! i) \<le> numPanels (solveAxis w g sizes ! j))"
proof -
  from solveAxis_sorted [OF c] ij
  have "cmp_le solution_cmp (solveAxis w g sizes ! i) (solveAxis w g sizes ! j)"
    by (simp add: sorted_wrt_iff_nth_less)
  with cl show ?thesis by (rule solution_cmp_close)
qed

lemma candidates_96:
  "candidates 96 0 [24, 48] =
     [\<lparr>counts = [(48, Count 0), (24, Count 1)], total = 24, coverage = Fin (1 / 4), numPanels = 1\<rparr>,
      \<lparr>counts = [(48, Count 0), (24, Count 2)], total = 48, coverage = Fin (1 / 2), numPanels = 2\<rparr>,
      \<lparr>counts = [(48, Count 0), (24, Count 3)], total = 72, coverage = Fin (3 / 4), numPanels = 3\<rparr>,
      \<lparr>counts = [(48, Count 0), (24, Count 4)], total = 96, coverage = Fin 1, numPanels = 4\<rparr>,
      \<lparr>counts = [(48, Count 1)], total = 48, coverage = Fin (1 / 2), numPanels = 1\<rparr>,
      \<lparr>counts = [(48, Count 1), (24, Count 0)], total = 48, coverage = Fin (1 / 2), numPanels = 1\<rparr>,
      \<lparr>counts = [(48, Count 1), (24, Count 1)], total = 72, coverage = Fin (3 / 4), numPanels = 2\<rparr>,
      \<lparr>counts = [(48, Count 1), (24, Count 2)], total = 96, coverage = Fin 1, numPanels = 3\<rparr>,
      \<lparr>counts = [(48, Count 2)], total = 96, coverage = Fin 1, numPanels = 2\<rparr>,
      \<lparr>counts = [(48, Count 2), (24, Count 0)], total = 96, coverage = Fin 1, numPanels = 2\<rparr>]"
  by (simp add: eval_candidates)

lemma solveAxis_96:
  "solveAxis 96 0 [24, 48] =
     [\<lparr>counts = [(48, Count 2)], total = 96, coverage = Fin 1, numPanels = 2\<rparr>,
      \<lparr>counts = [(48, Count 2), (24, Count 0)], total = 96, coverage = Fin 1, numPanels = 2\<rparr>,
      \<lparr>counts = [(48, Count 1), (24, Count 2)], total = 96, coverage = Fin 1, numPanels = 3\<rparr>,
      \<lparr>counts = [(48, Count 0), (24, Count 4)], total = 96, coverage = Fin 1, numPanels = 4\<rparr>,
      \<lparr>counts = [(48, Count 1), (24, Count 1)], total = 72, coverage = Fin (3 / 4), numPanels = 2\<rparr>,
      \<lparr>counts = [(48, Count 0), (24, Count 3)], total = 72, coverage = Fin (3 / 4), numPanels = 3\<rparr>,
      \<lparr>counts = [(48, Count 1)], total = 48, coverage = Fin (1 / 2), numPanels = 1\<rparr>,
      \<lparr>counts = [(48, Count 1), (24, Count 0)], total = 48, coverage = Fin (1 / 2), numPanels = 1\<rparr>,
      \<lparr>counts = [(48, Count 0), (24, Count 2)], total = 48, coverage = Fin (1 / 2), numPanels = 2\<rparr>,
      \<lparr>counts = [(48, Count 0), (24, Count 1)], total = 24, coverage = Fin (1 / 4), numPanels = 1\<rparr>]"
  apply (simp add: solveAxis_def candidates_96)
  apply (simp add: eval_sort)
  apply (simp add: eval_unique)
  done


lemma consistent_96: "consistent_on solution_cmp (candidates 96 0 [24, 48])"
  unfolding candidates_96 consistent_on_def
  by (simp add: cmp_le_def solution_cmp_def js_gt_def js_sub_def)

text \<open>
  C3. The list returned by \<open>solveAxis\<close> is to order solutions of close coverage by ascending
  number of distinct sizes used, then by panel count. On a wall of 96 with gap 0 and
  sizes 24 and 48 (where the comparator is transitive, \<open>consistent_96\<close>, so that every sort
  returns this list) the third solution uses two sizes and the fourth, of the same
  coverage, uses one: the comparator counts the keys of the count map, and the key of a
  size that was tried with count zero stays in the snapshot. For the same reason the
  first two solutions are one tiling under two signatures.
\<close>

theorem solveAxis_zero_count_keys:
  "counts (solveAxis 96 0 [24, 48] ! 2) = [(48, Count 1), (24, Count 2)]
   \<and> counts (solveAxis 96 0 [24, 48] ! 3) = [(48, Count 0), (24, Count 4)]
   \<and> close_coverage (solveAxis 96 0 [24, 48] ! 2) (solveAxis 96 0 [24, 48] ! 3)
   \<and> sizes_used (solveAxis 96 0 [24, 48] ! 2) = 2
   \<and> sizes_used (solveAxis 96 0 [24, 48] ! 3) = 1
   \<and> counts (solveAxis 96 0 [24, 48] ! 0) = [(48, Count 2)]
   \<and> counts (solveAxis 96 0 [24, 48] ! 1) = [(48, Count 2), (24, Count 0)]"
  by (simp add: solveAxis_96 close_coverage_def sizes_used_def js_sub_def)

section \<open>Hole computation: properties\<close>

text \<open>
  C9. \<open>solveAxis\<close> on an empty list of sizes returns the empty list, and
  \<open>computeAllHoles\<close> on a state without enabled hole sizes returns every panel with an
  empty list of holes (and a grid of 0 by 0), whatever the state. Both are results, not
  failures.
\<close>

theorem empty_catalogs:
  "solveAxis w g [] = []
   \<and> computeAllHoles (st\<lparr>enabledHoleSizes := []\<rparr>)
       = Some \<lparr>holed_panels = map (\<lambda>p. p\<lparr>holes := []\<rparr>) (panels st), gridInfo = (Fin 0, Fin 0)\<rparr>"
  by (simp add: solveAxis_def computeAllHoles_def no_holes_def js_sort_def split: option.splits)





lemma holes_loop_member:
  assumes "holes_loop st sizes ps = Some qs" and "q \<in> set qs"
  shows "\<exists>p \<in> set ps. panel_holes st sizes p = Some (holes q) \<and> q = p\<lparr>holes := holes q\<rparr>"
  using assms
proof (induction ps arbitrary: qs)
  case Nil
  then show ?case by simp
next
  case (Cons p ps)
  from Cons.prems(1) obtain hs qs' where
    hs: "panel_holes st sizes p = Some hs" and qs': "holes_loop st sizes ps = Some qs'"
    and qs: "qs = p\<lparr>holes := hs\<rparr> # qs'"
    by (auto split: option.splits)
  show ?case
  proof (cases "q = p\<lparr>holes := hs\<rparr>")
    case True
    with hs show ?thesis by auto
  next
    case False
    with Cons.prems(2) qs have "q \<in> set qs'" by simp
    from Cons.IH [OF qs' this] show ?thesis by auto
  qed
qed

lemma computeAllHoles_member:
  assumes "computeAllHoles st = Some res" and "q \<in> set (holed_panels res)" and "h \<in> set (holes q)"
  obtains p where "p \<in> set (panels st)"
    and "panel_holes st (js_sort (\<lambda>a b. Fin (a - b)) (enabledHoleSizes st)) p = Some (holes q)"
    and "q = p\<lparr>holes := holes q\<rparr>"
proof (cases "grayPixels st")
  case None
  with assms show ?thesis
    by (auto simp: computeAllHoles_def no_holes_def)
next
  case (Some g)
  let ?sizes = "js_sort (\<lambda>a b. Fin (a - b)) (enabledHoleSizes st)"
  show ?thesis
  proof (cases "?sizes = []")
    case True
    with assms Some show ?thesis
      by (auto simp: computeAllHoles_def no_holes_def)
  next
    case False
    with assms(1) Some obtain qs where qs: "holes_loop st ?sizes (panels st) = Some qs"
      and res: "holed_panels res = qs"
      by (auto simp: computeAllHoles_def Let_def split: option.splits)
    from holes_loop_member [OF qs] assms(2) res that show ?thesis by blast
  qed
qed

lemma panel_holes_member:
  assumes "panel_holes st sizes p = Some hs" and "h \<in> set hs"
  obtains C R r pt where
    "0 < panel_w p - 2 * margin st" "0 < panel_h p - 2 * margin st"
    "grid_dims st (panel_w p - 2 * margin st) (panel_h p - 2 * margin st) = (Fin C, Fin R)"
    "r < nat \<lceil>R\<rceil>"
    "pt \<in> set (lattice_row (margin st) (gridPattern st) (panel_w p - 2 * margin st)
                  (panel_h p - 2 * margin st) C R r)"
    "hole_at st sizes p pt = Some h"
proof -
  let ?aw = "panel_w p - 2 * margin st" and ?ah = "panel_h p - 2 * margin st"
  from assms have pos: "0 < ?aw" "0 < ?ah"
    by (auto simp: panel_holes_def Let_def split: if_splits)
  obtain cols rows where gd: "grid_dims st ?aw ?ah = (cols, rows)"
    by (cases "grid_dims st ?aw ?ah")
  from assms pos gd obtain C R where CR: "cols = Fin C" "rows = Fin R" "0 < R"
    and hs: "hs = concat (map (\<lambda>r. List.map_filter (hole_at st sizes p)
                (lattice_row (margin st) (gridPattern st) ?aw ?ah C R r)) [0 ..< nat \<lceil>R\<rceil>])"
    by (auto simp: panel_holes_def Let_def split: if_splits jsnum.splits)
  from assms(2) hs obtain r pt where "r < nat \<lceil>R\<rceil>"
    "pt \<in> set (lattice_row (margin st) (gridPattern st) ?aw ?ah C R r)"
    "hole_at st sizes p pt = Some h"
    by (auto simp: List.map_filter_def)
  with pos gd CR that show ?thesis by blast
qed

lemma hole_at_Some:
  assumes "hole_at st sizes p pt = Some h"
  shows "hole_x h = fst pt" "hole_y h = snd pt"
    "\<not> js_gt (brightness_at st p (fst pt) (snd pt)) (Fin (threshold st / 255))"
  using assms by (auto simp: hole_at_def Let_def split: if_splits)

lemma brightness_at_holes [simp]:
  "brightness_at st (p\<lparr>holes := hs\<rparr>) lx ly = brightness_at st p lx ly"
  by (simp add: brightness_at_def)

lemma hole_brightness:
  assumes "computeAllHoles st = Some res" and "q \<in> set (holed_panels res)" and "h \<in> set (holes q)"
  shows "\<not> js_gt (brightness_at st q (hole_x h) (hole_y h)) (Fin (threshold st / 255))"
proof -
  from assms obtain p where p: "p \<in> set (panels st)"
    "panel_holes st (js_sort (\<lambda>a b. Fin (a - b)) (enabledHoleSizes st)) p = Some (holes q)"
    "q = p\<lparr>holes := holes q\<rparr>"
    by (rule computeAllHoles_member)
  from p(2) assms(3) obtain pt where
    "hole_at st (js_sort (\<lambda>a b. Fin (a - b)) (enabledHoleSizes st)) p pt = Some h"
    by (rule panel_holes_member)
  from hole_at_Some [OF this] have "\<not> js_gt (brightness_at st p (hole_x h) (hole_y h)) (Fin (threshold st / 255))"
    by simp
  then show ?thesis by (subst p(3)) simp
qed

lemma clamp_unit_ex:
  "u \<noteq> NaN \<Longrightarrow> \<exists>c. js_max (Fin 0) (js_min (Fin 1) u) = Fin c \<and> 0 \<le> c \<and> c \<le> 1"
  by (cases u) auto

lemma clamp_unit:
  assumes "u \<noteq> NaN"
  obtains c where "js_max (Fin 0) (js_min (Fin 1) u) = Fin c" "0 \<le> c" "c \<le> 1"
  using clamp_unit_ex [OF assms] by blast

lemma px_index:
  fixes W H :: nat and x y :: int
  assumes len: "length g = W * H" and x: "0 \<le> x" "x < int W" and y: "0 \<le> y" "y < int H"
  shows "\<exists>b. js_index g (js_add (js_mul (Fin (of_int y)) (Fin (real W))) (Fin (of_int x))) = Fin b"
proof -
  have eq: "of_int y * real W + of_int x = (of_int (y * int W + x) :: real)" by simp
  have lo: "0 \<le> y * int W + x" using x y by simp
  have "y * int W \<le> (int H - 1) * int W"
    using y by (intro mult_right_mono) auto
  then have hi: "y * int W + x < int (W * H)"
    using x by (simp add: algebra_simps)
  have "(of_int (y * int W + x) :: real) < real (length g)"
    using hi len by (metis of_int_less_iff of_int_of_nat_eq)
  moreover have "(0 :: real) \<le> of_int (y * int W + x)"
    unfolding of_int_0_le_iff by (rule lo)
  ultimately show ?thesis
    unfolding js_add.simps js_mul.simps eq js_index_def by simp
qed

lemma cell_bounds:
  fixes W :: nat and c :: real
  assumes "0 < W" "0 \<le> c" "c \<le> 1"
  shows "0 \<le> \<lfloor>c * (real W - 1)\<rfloor>" "\<lfloor>c * (real W - 1)\<rfloor> < int W"
    "0 \<le> min (\<lfloor>c * (real W - 1)\<rfloor> + 1) (int W - 1)" "min (\<lfloor>c * (real W - 1)\<rfloor> + 1) (int W - 1) < int W"
proof -
  have w: "0 \<le> real W - 1" using assms(1) by simp
  then have a: "0 \<le> c * (real W - 1)" using assms(2) by simp
  have b: "c * (real W - 1) \<le> real W - 1"
    using mult_right_mono [OF assms(3) w] by simp
  from a show "0 \<le> \<lfloor>c * (real W - 1)\<rfloor>" by simp
  from b have "c * (real W - 1) < real W" by simp
  then show "\<lfloor>c * (real W - 1)\<rfloor> < int W" by (simp add: floor_less_iff)
  from a assms(1) show "0 \<le> min (\<lfloor>c * (real W - 1)\<rfloor> + 1) (int W - 1)" by simp
  show "min (\<lfloor>c * (real W - 1)\<rfloor> + 1) (int W - 1) < int W" by simp
qed

lemma sampleImage_finite:
  assumes wf: "well_formed st" and u: "u \<noteq> NaN" and v: "v \<noteq> NaN"
  shows "\<exists>b. sampleImage st u v = Fin b"
proof (cases "grayPixels st")
  case None
  then show ?thesis by (simp add: sampleImage_def)
next
  case (Some g)
  with wf obtain W H where WH: "0 < W" "0 < H" "imgWidth st = real W" "imgHeight st = real H"
    "length g = W * H"
    by (auto simp: well_formed_def)
  from u obtain cu where cu: "js_max (Fin 0) (js_min (Fin 1) u) = Fin cu" "0 \<le> cu" "cu \<le> 1"
    by (rule clamp_unit)
  from v obtain cv where cv: "js_max (Fin 0) (js_min (Fin 1) v) = Fin cv" "0 \<le> cv" "cv \<le> 1"
    by (rule clamp_unit)
  define x0 where "x0 = \<lfloor>cu * (real W - 1)\<rfloor>"
  define y0 where "y0 = \<lfloor>cv * (real H - 1)\<rfloor>"
  define x1 where "x1 = min (x0 + 1) (int W - 1)"
  define y1 where "y1 = min (y0 + 1) (int H - 1)"
  have xb: "0 \<le> x0" "x0 < int W" "0 \<le> x1" "x1 < int W"
    using cell_bounds [OF WH(1) cu(2,3)] by (simp_all add: x0_def x1_def)
  have yb: "0 \<le> y0" "y0 < int H" "0 \<le> y1" "y1 < int H"
    using cell_bounds [OF WH(2) cv(2,3)] by (simp_all add: y0_def y1_def)
  have ex1: "js_min (js_add (Fin (of_int x0)) (Fin 1)) (js_sub (Fin (real W)) (Fin 1)) = Fin (of_int x1)"
    by (simp add: x1_def js_sub_def min_def)
  have ey1: "js_min (js_add (Fin (of_int y0)) (Fin 1)) (js_sub (Fin (real H)) (Fin 1)) = Fin (of_int y1)"
    by (simp add: y1_def js_sub_def min_def)
  from px_index [OF WH(5) xb(1,2) yb(1,2)] obtain b00 where
    b00: "js_index g (js_add (js_mul (Fin (of_int y0)) (Fin (real W))) (Fin (of_int x0))) = Fin b00" ..
  from px_index [OF WH(5) xb(3,4) yb(1,2)] obtain b01 where
    b01: "js_index g (js_add (js_mul (Fin (of_int y0)) (Fin (real W))) (Fin (of_int x1))) = Fin b01" ..
  from px_index [OF WH(5) xb(1,2) yb(3,4)] obtain b10 where
    b10: "js_index g (js_add (js_mul (Fin (of_int y1)) (Fin (real W))) (Fin (of_int x0))) = Fin b10" ..
  from px_index [OF WH(5) xb(3,4) yb(3,4)] obtain b11 where
    b11: "js_index g (js_add (js_mul (Fin (of_int y1)) (Fin (real W))) (Fin (of_int x1))) = Fin b11" ..
  have fx: "js_floor (js_mul (Fin cu) (js_sub (Fin (real W)) (Fin 1))) = Fin (of_int x0)"
    and fy: "js_floor (js_mul (Fin cv) (js_sub (Fin (real H)) (Fin 1))) = Fin (of_int y0)"
    by (simp_all add: js_sub_def x0_def y0_def)
  show ?thesis
    unfolding sampleImage_def Some option.case Let_def WH(3,4) cu(1) cv(1) fx fy ex1 ey1 b00 b01 b10 b11
    by (simp add: js_sub_def)
qed

lemma brightness_at_finite:
  assumes "well_formed st"
  shows "\<exists>b. brightness_at st p lx ly = Fin b"
proof -
  have "js_div (Fin (panel_x p + lx)) (Fin (wallW st)) \<noteq> NaN"
    "js_div (Fin (panel_y p + ly)) (Fin (wallH st)) \<noteq> NaN"
    using assms by (simp_all add: well_formed_def)
  with assms show ?thesis
    unfolding brightness_at_def by (rule sampleImage_finite)
qed

text \<open>
  C4. No hole of the result of \<open>computeAllHoles\<close> sits where the sampled brightness times
  255 exceeds the threshold. On a well-formed state the sampled brightness is a finite
  number, and it is at most \<open>threshold / 255\<close>.
\<close>

theorem no_hole_above_threshold:
  assumes "computeAllHoles st = Some res" and "q \<in> set (holed_panels res)" and "h \<in> set (holes q)"
  shows "\<not> js_gt (js_mul (brightness_at st q (hole_x h) (hole_y h)) (Fin 255)) (Fin (threshold st))
         \<and> (well_formed st \<longrightarrow>
              (\<exists>b. brightness_at st q (hole_x h) (hole_y h) = Fin b \<and> b \<le> threshold st / 255))"
proof -
  have ng: "\<not> js_gt (brightness_at st q (hole_x h) (hole_y h)) (Fin (threshold st / 255))"
    by (rule hole_brightness [OF assms])
  then have "\<not> js_gt (js_mul (brightness_at st q (hole_x h) (hole_y h)) (Fin 255)) (Fin (threshold st))"
    by (cases "brightness_at st q (hole_x h) (hole_y h)")
       (auto simp: js_gt_def inf_of_sign_def field_simps)
  moreover have "\<exists>b. brightness_at st q (hole_x h) (hole_y h) = Fin b \<and> b \<le> threshold st / 255"
    if "well_formed st"
  proof -
    from brightness_at_finite [OF that] obtain b where
      "brightness_at st q (hole_x h) (hole_y h) = Fin b" ..
    with ng show ?thesis by (simp add: js_gt_def not_less)
  qed
  ultimately show ?thesis by blast
qed












text \<open>
  C7. On the staggered pattern with \<open>n \<ge> 2\<close> columns, an odd row of the lattice has
  \<open>n - 1\<close> points and an even row has \<open>n\<close>; the point of column \<open>c\<close> of an odd row is
  half a column pitch, \<open>(areaW / (n - 1)) / 2\<close>, to the right of the point of column \<open>c\<close> of
  an even row; and the height of a row is the same multiple of the row pitch on odd and
  even rows.
\<close>

theorem staggered_odd_row:
  assumes n: "2 \<le> n" and odd: "odd r" and even: "even r'" and c: "c < n - 1"
  shows "length (lattice_row m Hex aw ah (real n) rows r) = n - 1
         \<and> length (lattice_row m Hex aw ah (real n) rows r') = n
         \<and> fst (lattice_row m Hex aw ah (real n) rows r ! c)
             = fst (lattice_row m Hex aw ah (real n) rows r' ! c) + (aw / (real n - 1)) / 2
         \<and> snd (lattice_row m Hex aw ah (real n) rows r ! c)
             = m + (if rows > 1 then real r * (ah / (rows - 1)) else ah / 2)"
proof -
  have o: "r mod 2 = Suc 0" using odd by (simp add: odd_iff_mod_2_eq_one)
  have e: "r' mod 2 = 0" using even by (simp add: even_iff_mod_2_eq_zero)
  have c1: "nat (int n - 1) = n - Suc 0" using n by simp
  have n1: "1 < real n" using n by simp
  from c have c': "c < n" by simp
  show ?thesis
    using c c' n1 by (simp add: lattice_row_def Let_def o e c1)
qed

section \<open>Hole computation on a concrete panel\<close>

lemmas eval_holes =
  computeAllHoles_def panel_holes_def grid_dims_def lattice_row_def hole_at_def brightness_at_def
  sampleImage_def js_index_def js_sort_def js_gt_def js_sub_def js_pow_def inf_of_sign_def
  List.map_filter_def upt_eval

lemma computeAllHoles_black: "computeAllHoles black_state = Some (black_result (3 / 2))"
  by (simp add: black_state_def DEFAULT_PANEL_STATE_def test_panel_def eval_holes
      black_result_def black_holes_def)

lemma computeAllHoles_black_zero:
  "computeAllHoles (black_state\<lparr>threshold := 0\<rparr>) = Some (black_result (1 / 4))"
  by (simp add: black_state_def DEFAULT_PANEL_STATE_def test_panel_def eval_holes
      black_result_def black_holes_def)

lemma well_formed_black: "well_formed black_state"
proof -
  have "\<exists>W H. 0 < W \<and> 0 < H \<and> (1 :: real) = real W \<and> (1 :: real) = real H \<and> Suc 0 = W * H"
    by (intro exI [of _ 1]) simp
  then show ?thesis
    by (simp add: well_formed_def black_state_def DEFAULT_PANEL_STATE_def)
qed

theorem no_hole_above_threshold_witness:
  "computeAllHoles black_state = Some (black_result (3 / 2))
   \<and> test_panel\<lparr>holes := black_holes (3 / 2)\<rparr> \<in> set (holed_panels (black_result (3 / 2)))
   \<and> \<lparr>hole_x = 19 / 4, hole_y = 4, hole_d = 3 / 2\<rparr> \<in> set (holes (test_panel\<lparr>holes := black_holes (3 / 2)\<rparr>))
   \<and> well_formed black_state
   \<and> \<not> js_gt (js_mul (brightness_at black_state (test_panel\<lparr>holes := black_holes (3 / 2)\<rparr>) (19 / 4) 4)
                      (Fin 255)) (Fin (threshold black_state))
   \<and> (\<exists>b. brightness_at black_state (test_panel\<lparr>holes := black_holes (3 / 2)\<rparr>) (19 / 4) 4 = Fin b
          \<and> b \<le> threshold black_state / 255)"
proof -
  have q: "test_panel\<lparr>holes := black_holes (3 / 2)\<rparr> \<in> set (holed_panels (black_result (3 / 2)))"
    by (simp add: black_result_def)
  have h: "\<lparr>hole_x = 19 / 4, hole_y = 4, hole_d = 3 / 2\<rparr>
             \<in> set (holes (test_panel\<lparr>holes := black_holes (3 / 2)\<rparr>))"
    by (simp add: black_holes_def)
  from no_hole_above_threshold [OF computeAllHoles_black q h] well_formed_black
  have "\<not> js_gt (js_mul (brightness_at black_state (test_panel\<lparr>holes := black_holes (3 / 2)\<rparr>) (19 / 4) 4)
                      (Fin 255)) (Fin (threshold black_state))"
    and "\<exists>b. brightness_at black_state (test_panel\<lparr>holes := black_holes (3 / 2)\<rparr>) (19 / 4) 4 = Fin b
          \<and> b \<le> threshold black_state / 255"
    by simp_all
  with computeAllHoles_black q h well_formed_black show ?thesis by blast
qed


theorem staggered_odd_row_witness:
  "(2 :: nat) \<le> 3 \<and> odd (1 :: nat) \<and> even (0 :: nat) \<and> (1 :: nat) < 3 - 1
   \<and> length (lattice_row 1 Hex 5 3 (real 3) 2 1) = 3 - 1
   \<and> length (lattice_row 1 Hex 5 3 (real 3) 2 0) = 3
   \<and> fst (lattice_row 1 Hex 5 3 (real 3) 2 1 ! 1)
       = fst (lattice_row 1 Hex 5 3 (real 3) 2 0 ! 1) + (5 / (real 3 - 1)) / 2
   \<and> snd (lattice_row 1 Hex 5 3 (real 3) 2 1 ! 1)
       = 1 + (if (2 :: real) > 1 then real 1 * (3 / (2 - 1)) else 3 / 2)"
proof -
  have a: "(2 :: nat) \<le> 3" "odd (1 :: nat)" "even (0 :: nat)" "(1 :: nat) < 3 - 1"
    by simp_all
  from staggered_odd_row [OF a, of 1 5 3 2] a show ?thesis by blast
qed


end
